theory Spec2Isabelle
  imports Main "HOL-Library.Sublist" "HOL-Library.AList"
begin

section \<open>Strings\<close>

text \<open>
  The server works on Python \<open>str\<close> values. They are modelled as \<^typ>\<open>string\<close>, one
  \<^typ>\<open>char\<close> per code point, which covers the code points below 256. On that range
  \<open>str.lower\<close> acts on each character by itself and \<open>str.isspace\<close> holds for the
  characters listed in \<open>isspace\<close> below.
\<close>

definition isspace :: "char \<Rightarrow> bool" where
  "isspace c =
     (let n = (of_char c :: nat)
      in (9 \<le> n \<and> n \<le> 13) \<or> (28 \<le> n \<and> n \<le> 32) \<or> n = 133 \<or> n = 160)"

definition strip :: "string \<Rightarrow> string" where
  \<comment> \<open>\<open>s.strip()\<close>\<close>
  "strip s = rev (dropWhile isspace (rev (dropWhile isspace s)))"

definition lower_char :: "char \<Rightarrow> char" where
  "lower_char c =
     (let n = (of_char c :: nat)
      in if (65 \<le> n \<and> n \<le> 90) \<or> (192 \<le> n \<and> n \<le> 222 \<and> n \<noteq> 215)
         then char_of (n + 32) else c)"

definition lower :: "string \<Rightarrow> string" where
  \<comment> \<open>\<open>s.lower()\<close>\<close>
  "lower s = map lower_char s"

fun contains :: "string \<Rightarrow> string \<Rightarrow> bool" where
  \<comment> \<open>\<open>q in s\<close> on strings\<close>
  "contains q [] = (q = [])"
| "contains q (c # s) = (prefix q (c # s) \<or> contains q s)"

fun split_nl :: "string \<Rightarrow> string list" where
  \<comment> \<open>\<open>s.split('\n')\<close>\<close>
  "split_nl [] = [[]]"
| "split_nl (c # s) =
     (if c = CHR 0x0A then [] # split_nl s
      else (let r = split_nl s in (c # hd r) # tl r))"

fun split_nl1 :: "string \<Rightarrow> string list" where
  \<comment> \<open>\<open>s.split('\n', 1)\<close>: at most one split\<close>
  "split_nl1 [] = [[]]"
| "split_nl1 (c # s) =
     (if c = CHR 0x0A then [[], s]
      else (let r = split_nl1 s in (c # hd r) # tl r))"

fun join :: "string \<Rightarrow> string list \<Rightarrow> string" where
  \<comment> \<open>\<open>sep.join(xs)\<close>\<close>
  "join sep [] = []"
| "join sep [x] = x"
| "join sep (x # y # ys) = x @ sep @ join sep (y # ys)"

fun str_nat :: "nat \<Rightarrow> string" where
  \<comment> \<open>the decimal digits of a natural number, as \<open>f"{i}"\<close> prints it\<close>
  "str_nat n =
     (if n < 10 then [''0123456789'' ! n]
      else str_nat (n div 10) @ [''0123456789'' ! (n mod 10)])"

declare str_nat.simps [simp del]

fun re_split_at :: "bool \<Rightarrow> string \<Rightarrow> string list" where
  \<comment> \<open>the scan of \<open>re.split(r'^# ', s, flags=re.MULTILINE)\<close>; the flag says whether
      the position is the start of the text or follows a newline, where \<open>^\<close> matches\<close>
  "re_split_at bol [] = [[]]"
| "re_split_at bol [c] = [[c]]"
| "re_split_at bol (c # d # s) =
     (if bol \<and> c = CHR ''#'' \<and> d = CHR '' '' then [] # re_split_at False s
      else (let r = re_split_at (c = CHR 0x0A) (d # s) in (c # hd r) # tl r))"

definition re_split :: "string \<Rightarrow> string list" where
  "re_split s = re_split_at True s"

section \<open>The section dictionary\<close>

text \<open>
  \<open>self.sections\<close> is a Python \<open>dict\<close> from titles to bodies. Iteration follows insertion
  order, and assigning to a key that is present replaces its value where it stands, so the
  dictionary is an association list with that assignment.
\<close>

type_synonym dict = "(string \<times> string) list"

fun setitem :: "string \<Rightarrow> string \<Rightarrow> dict \<Rightarrow> dict" where
  \<comment> \<open>\<open>d[k] = v\<close>\<close>
  "setitem k v [] = [(k, v)]"
| "setitem k v ((k', v') # d) =
     (if k' = k then (k, v) # d else (k', v') # setitem k v d)"

record ContextParser =
  file_path :: string
  sections :: dict

section \<open>Loading and parsing\<close>

text \<open>
  What the file system answers for a path: the file is absent (\<open>exists()\<close> is false),
  \<open>exists()\<close> or \<open>read_text\<close> raises an exception with the given text, or the file
  is read. A location that does not exist answers \<open>Missing\<close>, or \<open>Raises\<close> when
  \<open>exists()\<close> itself fails, as it does for a name that is too long.
\<close>

datatype file_outcome = Missing | Raises string | Content string

fun header_sections :: "string list \<Rightarrow> dict \<Rightarrow> dict" where
  \<comment> \<open>the loop \<open>for section in sections[1:]\<close>\<close>
  "header_sections [] d = d"
| "header_sections (section # rest) d =
     (let lines = split_nl1 section
      in if length lines \<ge> 1
         then (let title = strip (lines ! 0);
                   content_part = (if length lines > 1 then lines ! 1 else [])
               in header_sections rest (setitem title (strip content_part) d))
         else header_sections rest d)"

definition parse_content :: "string \<Rightarrow> dict \<Rightarrow> dict" where
  "parse_content content d =
     (let chunks = re_split content
      in if length chunks > 1
         then header_sections (tl chunks)
                (if strip (chunks ! 0) \<noteq> []
                 then setitem ''Introduction'' (strip (chunks ! 0)) d else d)
         else setitem ''Documentation'' (strip content) d)"

definition not_found_message :: string where
  "not_found_message =
     ''Documentation file not found. Please create context.md in the project root.''"

definition load_and_parse ::
  "(string \<Rightarrow> file_outcome) \<Rightarrow> ContextParser \<Rightarrow> ContextParser \<times> string list" where
  \<comment> \<open>returns the parser and the lines printed to \<open>sys.stderr\<close>\<close>
  "load_and_parse fs self =
     (case fs (file_path self) of
        Missing \<Rightarrow>
          (self\<lparr>sections := [(''Error'', not_found_message)]\<rparr>,
           [''WARNING: Context file not found at '' @ file_path self])
      | Raises e \<Rightarrow>
          (self\<lparr>sections := [(''Error'', ''Failed to load documentation: '' @ e)]\<rparr>,
           [''ERROR loading context file: '' @ e])
      | Content content \<Rightarrow>
          (let self' = self\<lparr>sections := parse_content content (sections self)\<rparr>
           in (self',
               [''Loaded context file: '' @ file_path self @ '' (''
                  @ str_nat (length content) @ '' chars)'',
                ''Parsed '' @ str_nat (length (sections self')) @ '' sections''])))"

definition init :: "(string \<Rightarrow> file_outcome) \<Rightarrow> string \<Rightarrow> ContextParser \<times> string list" where
  \<comment> \<open>\<open>ContextParser(file_path)\<close>\<close>
  "init fs path = load_and_parse fs \<lparr>file_path = path, sections = []\<rparr>"

definition build :: "string \<Rightarrow> dict" where
  \<comment> \<open>the section map of a parser constructed on a file with the given text\<close>
  "build content = parse_content content []"

section \<open>Overview and search\<close>

fun overview_loop :: "nat \<Rightarrow> string list \<Rightarrow> string \<Rightarrow> string" where
  \<comment> \<open>\<open>for i, title in enumerate(self.sections.keys(), 1)\<close>\<close>
  "overview_loop i [] overview = overview"
| "overview_loop i (title # rest) overview =
     overview_loop (i + 1) rest (overview @ str_nat i @ ''. '' @ title @ [CHR 0x0A])"

definition get_overview :: "ContextParser \<Rightarrow> string" where
  "get_overview self =
     (if sections self = [] then ''No documentation sections available.''
      else overview_loop 1 (map fst (sections self))
             (''Available documentation sections:'' @ [CHR 0x0A, CHR 0x0A]))"

type_synonym result = "string \<times> string"

fun title_loop :: "string \<Rightarrow> dict \<Rightarrow> result list \<Rightarrow> result list" where
  \<comment> \<open>the first loop of \<open>search\<close>\<close>
  "title_loop query_lower [] results = results"
| "title_loop query_lower ((title, content) # rest) results =
     title_loop query_lower rest
       (if contains query_lower (lower title)
        then results @ [(title, ''Found in section title: '' @ title)]
        else results)"

fun line_loop :: "string \<Rightarrow> string list \<Rightarrow> string list \<Rightarrow> string list" where
  \<comment> \<open>\<open>for line in lines\<close>\<close>
  "line_loop query_lower [] matching_lines = matching_lines"
| "line_loop query_lower (line # rest) matching_lines =
     line_loop query_lower rest
       (if contains query_lower (lower line) then matching_lines @ [strip line]
        else matching_lines)"

definition snippet :: "string \<Rightarrow> string list \<Rightarrow> string" where
  \<comment> \<open>\<open>f"From '{title}' section:\n{context}"\<close> with the first three matching lines\<close>
  "snippet title matching_lines =
     ''From '' @ [CHR 0x27] @ title @ [CHR 0x27] @ '' section:'' @ [CHR 0x0A]
       @ join [CHR 0x0A] (take 3 matching_lines)"

fun content_loop :: "string \<Rightarrow> dict \<Rightarrow> result list \<Rightarrow> result list" where
  \<comment> \<open>the second loop of \<open>search\<close>\<close>
  "content_loop query_lower [] results = results"
| "content_loop query_lower ((title, content) # rest) results =
     content_loop query_lower rest
       (if contains query_lower (lower content)
        then (let matching_lines = line_loop query_lower (split_nl content) []
              in if matching_lines \<noteq> []
                 then results @ [(title, snippet title matching_lines)]
                 else results)
        else results)"

definition search_results :: "dict \<Rightarrow> string \<Rightarrow> result list" where
  \<comment> \<open>the list \<open>results\<close> after both loops\<close>
  "search_results d query_lower =
     content_loop query_lower d (title_loop query_lower d [])"

fun format_loop :: "nat \<Rightarrow> result list \<Rightarrow> string \<Rightarrow> string" where
  \<comment> \<open>\<open>for i, (title, context) in enumerate(results[:5], 1)\<close>\<close>
  "format_loop i [] response = response"
| "format_loop i ((title, context) # rest) response =
     format_loop (i + 1) rest
       (response @ str_nat i @ ''. '' @ context @ [CHR 0x0A, CHR 0x0A])"

definition search :: "ContextParser \<Rightarrow> string \<Rightarrow> string" where
  "search self query =
     (if sections self = [] then ''No documentation available to search.''
      else
        (let query_lower = lower query;
             results = search_results (sections self) query_lower
         in if results = []
            then ''No results found for '' @ [CHR 0x27] @ query @ [CHR 0x27]
                   @ '' in the documentation.''
            else
              (let response =
                     format_loop 1 (take 5 results)
                       (''Search results for '' @ [CHR 0x27] @ query @ [CHR 0x27]
                          @ '':'' @ [CHR 0x0A, CHR 0x0A])
               in if length results > 5
                  then response @ ''... and '' @ str_nat (length results - 5)
                         @ '' more results found.'' @ [CHR 0x0A]
                  else response)))"

section \<open>The two methods on untyped objects\<close>

text \<open>
  Python checks no types: \<open>self.sections\<close> and \<open>query\<close> are objects, and a method
  call on an object that lacks the method raises \<open>AttributeError\<close>. To state that the
  two query methods do not raise, they are modelled a second time on objects, with that
  outcome: a value is a \<open>str\<close> or \<open>None\<close>, and \<open>self.sections\<close> is a \<open>dict\<close> of values
  or a value. The loops run over the finite list of the dictionary's items.
\<close>

datatype pyval = Str string | NoneVal

datatype pyobj = Dict "(pyval \<times> pyval) list" | Val pyval

datatype py_error = AttributeError

fun truthy :: "pyobj \<Rightarrow> bool" where
  \<comment> \<open>the test \<open>not self.sections\<close> is the negation of this\<close>
  "truthy (Dict d) = (d \<noteq> [])"
| "truthy (Val (Str s)) = (s \<noteq> [])"
| "truthy (Val NoneVal) = False"

fun py_items :: "pyobj \<Rightarrow> py_error + (pyval \<times> pyval) list" where
  \<comment> \<open>\<open>.items()\<close> and \<open>.keys()\<close>\<close>
  "py_items (Dict d) = Inr d"
| "py_items (Val v) = Inl AttributeError"

fun py_lower :: "pyval \<Rightarrow> py_error + string" where
  \<comment> \<open>\<open>v.lower()\<close>\<close>
  "py_lower (Str s) = Inr (lower s)"
| "py_lower NoneVal = Inl AttributeError"

fun py_split_nl :: "pyval \<Rightarrow> py_error + string list" where
  \<comment> \<open>\<open>v.split('\n')\<close>\<close>
  "py_split_nl (Str s) = Inr (split_nl s)"
| "py_split_nl NoneVal = Inl AttributeError"

fun py_format :: "pyval \<Rightarrow> string" where
  \<comment> \<open>\<open>f"{v}"\<close>\<close>
  "py_format (Str s) = s"
| "py_format NoneVal = ''None''"

fun overview_loop_py :: "nat \<Rightarrow> pyval list \<Rightarrow> string \<Rightarrow> string" where
  "overview_loop_py i [] overview = overview"
| "overview_loop_py i (title # rest) overview =
     overview_loop_py (i + 1) rest
       (overview @ str_nat i @ ''. '' @ py_format title @ [CHR 0x0A])"

definition get_overview_py :: "pyobj \<Rightarrow> py_error + string" where
  "get_overview_py secs =
     (if \<not> truthy secs then Inr ''No documentation sections available.''
      else case py_items secs of
             Inl e \<Rightarrow> Inl e
           | Inr items \<Rightarrow>
               Inr (overview_loop_py 1 (map fst items)
                      (''Available documentation sections:'' @ [CHR 0x0A, CHR 0x0A])))"

type_synonym pyresult = "pyval \<times> string"

fun title_loop_py ::
  "string \<Rightarrow> (pyval \<times> pyval) list \<Rightarrow> pyresult list \<Rightarrow> py_error + pyresult list" where
  "title_loop_py query_lower [] results = Inr results"
| "title_loop_py query_lower ((title, content) # rest) results =
     (case py_lower title of
        Inl e \<Rightarrow> Inl e
      | Inr title_lower \<Rightarrow>
          title_loop_py query_lower rest
            (if contains query_lower title_lower
             then results @ [(title, ''Found in section title: '' @ py_format title)]
             else results))"

fun content_loop_py ::
  "string \<Rightarrow> (pyval \<times> pyval) list \<Rightarrow> pyresult list \<Rightarrow> py_error + pyresult list" where
  "content_loop_py query_lower [] results = Inr results"
| "content_loop_py query_lower ((title, content) # rest) results =
     (case py_lower content of
        Inl e \<Rightarrow> Inl e
      | Inr content_lower \<Rightarrow>
          if contains query_lower content_lower
          then (case py_split_nl content of
                  Inl e \<Rightarrow> Inl e
                | Inr lines \<Rightarrow>
                    (let matching_lines = line_loop query_lower lines []
                     in content_loop_py query_lower rest
                          (if matching_lines \<noteq> []
                           then results @ [(title, snippet (py_format title) matching_lines)]
                           else results)))
          else content_loop_py query_lower rest results)"

fun format_loop_py :: "nat \<Rightarrow> pyresult list \<Rightarrow> string \<Rightarrow> string" where
  "format_loop_py i [] response = response"
| "format_loop_py i ((title, context) # rest) response =
     format_loop_py (i + 1) rest
       (response @ str_nat i @ ''. '' @ context @ [CHR 0x0A, CHR 0x0A])"

definition search_py :: "pyobj \<Rightarrow> pyval \<Rightarrow> py_error + string" where
  "search_py secs query =
     (if \<not> truthy secs then Inr ''No documentation available to search.''
      else case py_lower query of
        Inl e \<Rightarrow> Inl e
      | Inr query_lower \<Rightarrow>
      (case py_items secs of
        Inl e \<Rightarrow> Inl e
      | Inr items \<Rightarrow>
      (case title_loop_py query_lower items [] of
        Inl e \<Rightarrow> Inl e
      | Inr title_results \<Rightarrow>
      (case content_loop_py query_lower items title_results of
        Inl e \<Rightarrow> Inl e
      | Inr results \<Rightarrow>
          Inr (if results = []
               then ''No results found for '' @ [CHR 0x27] @ py_format query @ [CHR 0x27]
                      @ '' in the documentation.''
               else
                 (let response =
                        format_loop_py 1 (take 5 results)
                          (''Search results for '' @ [CHR 0x27] @ py_format query @ [CHR 0x27]
                             @ '':'' @ [CHR 0x0A, CHR 0x0A])
                  in if length results > 5
                     then response @ ''... and '' @ str_nat (length results - 5)
                            @ '' more results found.'' @ [CHR 0x0A]
                     else response))))))"

section \<open>Notions of the specification\<close>

text \<open>
  The matching rule of the specification, in its own words: a query matches a text when
  the lowercased query is a contiguous part of the lowercased text. A section matches by
  title when its title does, and by body when one of the lines of its body does.
\<close>

definition title_match :: "string \<Rightarrow> string \<times> string \<Rightarrow> bool" where
  "title_match q section = sublist (lower q) (lower (fst section))"

definition line_match :: "string \<Rightarrow> string \<Rightarrow> bool" where
  "line_match q line = sublist (lower q) (lower line)"

definition body_match :: "string \<Rightarrow> string \<times> string \<Rightarrow> bool" where
  "body_match q section = list_ex (line_match q) (split_nl (snd section))"

definition title_result :: "string \<times> string \<Rightarrow> result" where
  \<comment> \<open>the result of the title pass for a section\<close>
  "title_result section = (fst section, ''Found in section title: '' @ fst section)"

definition body_result :: "string \<Rightarrow> string \<times> string \<Rightarrow> result" where
  \<comment> \<open>the result of the body pass for a section: its first three matching lines, trimmed\<close>
  "body_result q section =
     (fst section,
      snippet (fst section) (map strip (filter (line_match q) (split_nl (snd section)))))"

definition numbered :: "nat \<times> result \<Rightarrow> string" where
  \<comment> \<open>one entry of the numbered listing\<close>
  "numbered e = str_nat (fst e) @ ''. '' @ snd (snd e) @ [CHR 0x0A, CHR 0x0A]"

text \<open>
  The assignments \<open>self.sections[title] = body\<close> that parsing executes, in order, and
  the order in which keys first occur in a list.
\<close>

fun first_occ :: "string list \<Rightarrow> string list \<Rightarrow> string list" where
  \<comment> \<open>the elements not in \<open>seen\<close>, each at its first occurrence\<close>
  "first_occ seen [] = []"
| "first_occ seen (k # ks) =
     (if k \<in> set seen then first_occ seen ks else k # first_occ (k # seen) ks)"

definition chunk_entry :: "string \<Rightarrow> string \<times> string" where
  \<comment> \<open>title and body of the text that follows one header marker\<close>
  "chunk_entry chunk =
     (strip (hd (split_nl1 chunk)),
      strip (if length (split_nl1 chunk) > 1 then split_nl1 chunk ! 1 else []))"

definition assignments :: "string \<Rightarrow> (string \<times> string) list" where
  "assignments content =
     (if length (re_split content) > 1
      then (if strip (hd (re_split content)) \<noteq> []
            then [(''Introduction'', strip (hd (re_split content)))] else [])
           @ map chunk_entry (tl (re_split content))
      else [(''Documentation'', strip content)])"

fun assign_all :: "(string \<times> string) list \<Rightarrow> dict \<Rightarrow> dict" where
  \<comment> \<open>the assignments carried out one after the other\<close>
  "assign_all [] d = d"
| "assign_all ((k, v) # rest) d = assign_all rest (setitem k v d)"

text \<open>
  A top-level header is a line that begins with \<open>#\<close> and a space. The preamble is the
  text before the first such line.
\<close>

definition is_header_line :: "string \<Rightarrow> bool" where
  "is_header_line line = prefix ''# '' line"

definition has_header :: "string \<Rightarrow> bool" where
  "has_header content = list_ex is_header_line (split_nl content)"

fun before_header :: "bool \<Rightarrow> string list \<Rightarrow> string" where
  "before_header bol [] = []"
| "before_header bol (line # rest) =
     (if bol \<and> is_header_line line then []
      else if rest = [] then line
      else line @ [CHR 0x0A] @ before_header True rest)"

definition preamble :: "string \<Rightarrow> string" where
  "preamble content = before_header True (split_nl content)"

definition header_titles :: "string \<Rightarrow> string list" where
  \<comment> \<open>the titles that the header loop assigns, in order\<close>
  "header_titles content = map (fst \<circ> chunk_entry) (tl (re_split content))"

text \<open>A section map of strings and a query string, as objects; one line of the overview.\<close>

definition py_section :: "string \<times> string \<Rightarrow> pyval \<times> pyval" where
  "py_section section = (Str (fst section), Str (snd section))"

definition py_result :: "result \<Rightarrow> pyresult" where
  "py_result r = (Str (fst r), snd r)"

definition py_dict :: "dict \<Rightarrow> pyobj" where
  "py_dict d = Dict (map py_section d)"

definition overview_line :: "nat \<times> string \<Rightarrow> string" where
  "overview_line e = str_nat (fst e) @ ''. '' @ snd e @ [CHR 0x0A]"

section \<open>Example inputs\<close>

definition no_files :: "string \<Rightarrow> file_outcome" where
  \<comment> \<open>a file system in which no path exists\<close>
  "no_files path = Missing"

definition foo_bar_parser :: ContextParser where
  "foo_bar_parser = \<lparr>file_path = ''context.md'', sections = build ''Foo bar''\<rparr>"






text \<open>An absent location whose name is too long for \<open>exists()\<close> to answer.\<close>

definition long_path :: string where
  "long_path = ''/tmp/'' @ replicate 300 (CHR ''a'') @ ''.md''"

definition long_name_files :: "string \<Rightarrow> file_outcome" where
  "long_name_files path =
     Raises (''[Errno 36] File name too long: '' @ [CHR 0x27] @ path @ [CHR 0x27])"

section \<open>Basic facts\<close>

lemma contains_iff_sublist: "contains q s \<longleftrightarrow> sublist q s"
  by (induction s) (auto simp: sublist_Cons_right)

lemma setitem_update: "setitem k v d = AList.update k v d"
  by (induction d) auto

lemma setitem_not_Nil: "setitem k v d \<noteq> []"
  by (cases d) (auto split: if_splits)

lemma split_nl1_not_Nil: "split_nl1 s \<noteq> []"
  by (induction s) (auto simp: Let_def)

lemma re_split_at_not_Nil: "re_split_at bol s \<noteq> []"
  by (induction bol s rule: re_split_at.induct) (auto simp: Let_def)

lemma header_sections_not_Nil:
  "d \<noteq> [] \<or> chunks \<noteq> [] \<Longrightarrow> header_sections chunks d \<noteq> []"
proof (induction chunks arbitrary: d)
  case Nil
  then show ?case by simp
next
  case (Cons c cs)
  show ?case
    by (simp add: Let_def Cons.IH setitem_not_Nil Suc_le_eq split_nl1_not_Nil)
qed

lemma parse_content_not_Nil: "parse_content content d \<noteq> []"
proof (cases "length (re_split content) > 1")
  case True
  then have "tl (re_split content) \<noteq> []"
    by (cases "re_split content") auto
  then show ?thesis using True
    by (simp add: parse_content_def Let_def header_sections_not_Nil)
next
  case False
  then show ?thesis
    by (simp add: parse_content_def Let_def setitem_not_Nil)
qed

lemma sections_init_not_Nil: "sections (fst (init fs path)) \<noteq> []"
  by (cases "fs path")
    (simp_all add: init_def load_and_parse_def Let_def parse_content_not_Nil)

text \<open>Both formatting loops only append to the string they are given.\<close>

lemma overview_loop_append: "overview_loop i ts acc = acc @ overview_loop i ts []"
proof (induction ts arbitrary: i acc)
  case Nil
  then show ?case by simp
next
  case (Cons t ts)
  show ?case
    using Cons.IH [of "i + 1" "acc @ str_nat i @ ''. '' @ t @ [CHR 0x0A]"]
      Cons.IH [of "i + 1" "str_nat i @ ''. '' @ t @ [CHR 0x0A]"]
    by simp
qed

lemma format_loop_append: "format_loop i rs acc = acc @ format_loop i rs []"
proof (induction rs arbitrary: i acc)
  case Nil
  then show ?case by simp
next
  case (Cons r rs)
  obtain t c where r: "r = (t, c)" by (cases r)
  show ?case
    using Cons.IH [of "i + 1" "acc @ str_nat i @ ''. '' @ c @ [CHR 0x0A, CHR 0x0A]"]
      Cons.IH [of "i + 1" "str_nat i @ ''. '' @ c @ [CHR 0x0A, CHR 0x0A]"]
    by (simp add: r)
qed

section \<open>The section map is never empty\<close>

text \<open>
  Claim C10. After construction the section map has at least one entry, whatever the file
  system answered for the path: the file was absent, reading raised, or the text was read
  and parsed. So for a constructed parser \<open>get_overview\<close> never returns
  "No documentation sections available." and \<open>search\<close> never returns
  "No documentation available to search.".
\<close>

theorem constructed_sections_nonempty:
  "sections (fst (init fs path)) \<noteq> []
   \<and> get_overview (fst (init fs path)) \<noteq> ''No documentation sections available.''
   \<and> search (fst (init fs path)) query \<noteq> ''No documentation available to search.''"
proof -
  let ?p = "fst (init fs path)"
  have ne: "sections ?p \<noteq> []"
    by (rule sections_init_not_Nil)
  have ov: "get_overview ?p \<noteq> ''No documentation sections available.''"
    using ne overview_loop_append [of 1 "map fst (sections ?p)"
        "''Available documentation sections:'' @ [CHR 0x0A, CHR 0x0A]"]
    by (simp add: get_overview_def)
  have se: "search ?p query \<noteq> ''No documentation available to search.''"
    using ne format_loop_append [of 1 "take 5 (search_results (sections ?p) (lower query))"
        "''Search results for '' @ [CHR 0x27] @ query @ [CHR 0x27] @ '':'' @ [CHR 0x0A, CHR 0x0A]"]
    by (simp add: search_def Let_def)
  show ?thesis using ne ov se by blast
qed

section \<open>A missing file\<close>


text \<open>
  Claim C1, as stated: for a location that does not exist the single section is titled
  "Error" and its body mentions the resolved path. The body is a fixed message; for the
  absent path \<open>/tmp/nope.md\<close> it does not contain the path.
\<close>

theorem missing_file_body_omits_path:
  "no_files ''/tmp/nope.md'' = Missing
   \<and> sections (fst (init no_files ''/tmp/nope.md''))
       = [(''Error'',
           ''Documentation file not found. Please create context.md in the project root.'')]
   \<and> \<not> contains ''/tmp/nope.md''
         ''Documentation file not found. Please create context.md in the project root.''"
  by (simp add: no_files_def init_def load_and_parse_def not_found_message_def)

text \<open>
  Claim C1, amended: for every location that does not exist, construction yields a section
  map with exactly one entry, titled "Error", and the overview lists exactly one section.
  When the existence check answers false, the body is the fixed not-found message, the
  same for every path, and the path is written in the warning on the diagnostic stream.
  When the existence check itself raises, the body is "Failed to load documentation: "
  followed by the text of the exception.
\<close>

theorem missing_file_sections:
  "(fs path = Missing \<longrightarrow>
      sections (fst (init fs path)) = [(''Error'', not_found_message)]
      \<and> snd (init fs path) = [''WARNING: Context file not found at '' @ path]
      \<and> get_overview (fst (init fs path))
          = ''Available documentation sections:\<newline>\<newline>1. Error\<newline>'')
   \<and> (fs path = Raises e \<longrightarrow>
      sections (fst (init fs path)) = [(''Error'', ''Failed to load documentation: '' @ e)]
      \<and> snd (init fs path) = [''ERROR loading context file: '' @ e]
      \<and> get_overview (fst (init fs path))
          = ''Available documentation sections:\<newline>\<newline>1. Error\<newline>'')"
  by (simp add: init_def load_and_parse_def get_overview_def str_nat.simps)

theorem missing_file_sections_witness:
  "no_files ''/tmp/nope.md'' = Missing
   \<and> sections (fst (init no_files ''/tmp/nope.md'')) = [(''Error'', not_found_message)]
   \<and> snd (init no_files ''/tmp/nope.md'')
       = [''WARNING: Context file not found at /tmp/nope.md'']
   \<and> get_overview (fst (init no_files ''/tmp/nope.md''))
       = ''Available documentation sections:\<newline>\<newline>1. Error\<newline>''
   \<and> long_name_files long_path
       = Raises (''[Errno 36] File name too long: '' @ [CHR 0x27] @ long_path @ [CHR 0x27])
   \<and> sections (fst (init long_name_files long_path))
       = [(''Error'', ''Failed to load documentation: [Errno 36] File name too long: ''
                       @ [CHR 0x27] @ long_path @ [CHR 0x27])]
   \<and> get_overview (fst (init long_name_files long_path))
       = ''Available documentation sections:\<newline>\<newline>1. Error\<newline>''"
proof -
  have h1: "no_files ''/tmp/nope.md'' = Missing"
    by (simp add: no_files_def)
  have h2: "long_name_files long_path
      = Raises (''[Errno 36] File name too long: '' @ [CHR 0x27] @ long_path @ [CHR 0x27])"
    by (simp add: long_name_files_def)
  show ?thesis
    using missing_file_sections [of no_files "''/tmp/nope.md''" "[]"]
      missing_file_sections [of long_name_files long_path
        "''[Errno 36] File name too long: '' @ [CHR 0x27] @ long_path @ [CHR 0x27]"]
      h1 h2
    by simp
qed

section \<open>Header segmentation on an example\<close>

text \<open>
  Claim C4. The text \<open>"# A\nfoo\n# B\nbar"\<close> is parsed into the sections A with body
  "foo" and B with body "bar", in that order, and the header marker \<open>"# "\<close> occurs in no
  title and in no body.
\<close>

theorem header_segmentation_example:
  "build ''# A\<newline>foo\<newline># B\<newline>bar'' = [(''A'', ''foo''), (''B'', ''bar'')]
   \<and> list_all (\<lambda>(title, body). \<not> contains ''# '' title \<and> \<not> contains ''# '' body)
        (build ''# A\<newline>foo\<newline># B\<newline>bar'')"
  by (simp add: build_def parse_content_def re_split_def strip_def isspace_def)

section \<open>The two passes of search\<close>

lemma sublist_trans: "sublist xs ys \<Longrightarrow> sublist ys zs \<Longrightarrow> sublist xs zs"
proof -
  assume "sublist xs ys" and "sublist ys zs"
  then obtain a b c d where "ys = a @ xs @ b" and "zs = c @ ys @ d"
    by (auto simp: sublist_def)
  then have "zs = (c @ a) @ xs @ (b @ d)" by simp
  then show ?thesis unfolding sublist_def by blast
qed

lemma lower_char_newline [simp]: "lower_char c = CHR 0x0A \<longleftrightarrow> c = CHR 0x0A"
proof
  assume h: "lower_char c = CHR 0x0A"
  show "c = CHR 0x0A"
  proof (rule ccontr)
    assume ne: "c \<noteq> CHR 0x0A"
    let ?n = "of_char c :: nat"
    from h ne have up: "(65 \<le> ?n \<and> ?n \<le> 90) \<or> (192 \<le> ?n \<and> ?n \<le> 222 \<and> ?n \<noteq> 215)"
      and eq: "char_of (?n + 32) = CHR 0x0A"
      by (auto simp: lower_char_def Let_def split: if_splits)
    from eq have "take_bit 8 (?n + 32) = (10::nat)"
      by (simp add: char_of_eq_iff)
    then have "(?n + 32) mod 256 = 10"
      by (simp add: take_bit_eq_mod)
    with up show False by auto
  qed
next
  assume "c = CHR 0x0A"
  then show "lower_char c = CHR 0x0A" by (simp add: lower_char_def)
qed

lemma split_nl_not_Nil [simp]: "split_nl s \<noteq> []"
  by (induction s) (auto simp: Let_def)


lemma hd_split_nl_prefix: "split_nl s = h # t \<Longrightarrow> prefix h s"
proof (induction s arbitrary: h t)
  case Nil
  then show ?case by simp
next
  case (Cons a s)
  then show ?case
    by (cases "split_nl s") (auto simp: Let_def split: if_splits)
qed

lemma split_nl_sublist: "l \<in> set (split_nl s) \<Longrightarrow> sublist l s"
proof (induction s arbitrary: l)
  case Nil
  then show ?case by simp
next
  case (Cons c s)
  show ?case
  proof (cases "c = CHR 0x0A")
    case True
    with Cons.prems have "l = [] \<or> l \<in> set (split_nl s)" by simp
    then show ?thesis using Cons.IH by (auto simp: sublist_Cons_right)
  next
    case False
    obtain h t where r: "split_nl s = h # t" by (cases "split_nl s") auto
    with False Cons.prems have "l = c # h \<or> l \<in> set t" by (simp add: Let_def)
    then show ?thesis
    proof
      assume l: "l = c # h"
      have "prefix h s" using r by (rule hd_split_nl_prefix)
      then show ?thesis by (simp add: l sublist_Cons_right)
    next
      assume "l \<in> set t"
      then have "sublist l s" using Cons.IH r by simp
      then show ?thesis by (simp add: sublist_Cons_right)
    qed
  qed
qed

text \<open>A line that matches makes the whole body match, so the outer test of the body
  pass never hides a section that has a matching line.\<close>

lemma line_match_imp_content:
  assumes "l \<in> set (split_nl c)" and "line_match q l"
  shows "contains (lower q) (lower c)"
proof -
  have "sublist (lower l) (lower c)"
    unfolding lower_def by (rule map_mono_sublist) (rule split_nl_sublist [OF assms(1)])
  moreover have "sublist (lower q) (lower l)"
    using assms(2) by (simp add: line_match_def)
  ultimately show ?thesis
    unfolding contains_iff_sublist by (blast intro: sublist_trans)
qed

lemma title_loop_eq:
  "title_loop (lower q) d acc = acc @ map title_result (filter (title_match q) d)"
  by (induction d arbitrary: acc)
    (auto simp: title_match_def title_result_def contains_iff_sublist)

lemma line_loop_eq:
  "line_loop (lower q) ls acc = acc @ map strip (filter (line_match q) ls)"
  by (induction ls arbitrary: acc) (auto simp: line_match_def contains_iff_sublist)

lemma filter_line_match_Nil:
  "filter (line_match q) ls = [] \<longleftrightarrow> \<not> list_ex (line_match q) ls"
  by (induction ls) auto

lemma content_loop_eq:
  "content_loop (lower q) d acc = acc @ map (body_result q) (filter (body_match q) d)"
proof (induction d arbitrary: acc)
  case Nil
  then show ?case by simp
next
  case (Cons s d)
  obtain t c where s: "s = (t, c)" by (cases s)
  show ?case
  proof (cases "body_match q s")
    case True
    then obtain l where l: "l \<in> set (split_nl c)" "line_match q l"
      by (auto simp: body_match_def s list_ex_iff)
    have c: "contains (lower q) (lower c)"
      by (rule line_match_imp_content [OF l])
    have ne: "filter (line_match q) (split_nl c) \<noteq> []"
      using True by (simp add: filter_line_match_Nil body_match_def s)
    show ?thesis
      using True c ne by (simp add: s Cons.IH line_loop_eq body_result_def)
  next
    case False
    then have "filter (line_match q) (split_nl c) = []"
      by (simp add: filter_line_match_Nil body_match_def s)
    then show ?thesis
      using False by (simp add: s Cons.IH line_loop_eq)
  qed
qed

lemma search_results_eq:
  "search_results d (lower q)
     = map title_result (filter (title_match q) d)
       @ map (body_result q) (filter (body_match q) d)"
  by (simp add: search_results_def title_loop_eq content_loop_eq)

lemma search_results_Nil [simp]: "search_results [] ql = []"
  by (simp add: search_results_def)

lemma format_loop_eq:
  "format_loop i rs acc = acc @ concat (map numbered (List.enumerate i rs))"
proof (induction rs arbitrary: i acc)
  case Nil
  then show ?case by simp
next
  case (Cons r rs)
  obtain t c where r: "r = (t, c)" by (cases r)
  show ?case
    by (simp add: r Cons.IH numbered_def)
qed

lemma search_eq:
  "search self q =
     (if sections self = [] then ''No documentation available to search.''
      else if search_results (sections self) (lower q) = []
      then ''No results found for '' @ [CHR 0x27] @ q @ [CHR 0x27] @ '' in the documentation.''
      else ''Search results for '' @ [CHR 0x27] @ q @ [CHR 0x27] @ '':'' @ [CHR 0x0A, CHR 0x0A]
           @ concat (map numbered
               (List.enumerate 1 (take 5 (search_results (sections self) (lower q)))))
           @ (if 5 < length (search_results (sections self) (lower q))
              then ''... and '' @ str_nat (length (search_results (sections self) (lower q)) - 5)
                     @ '' more results found.'' @ [CHR 0x0A]
              else []))"
  by (simp add: search_def Let_def format_loop_eq)

text \<open>
  Claim C6. For every section map and every query, the result list that \<open>search\<close> builds
  is the results of the title pass followed by the results of the body pass, each pass
  running over the sections in insertion order. The passes are independent: the length of
  the list is the number of title matches plus the number of body matches, so a section
  that matches by title and by body is listed once by each pass.
\<close>

theorem search_results_title_then_body:
  "search_results d (lower q)
     = map title_result (filter (title_match q) d)
       @ map (body_result q) (filter (body_match q) d)
   \<and> length (search_results d (lower q))
     = length (filter (title_match q) d) + length (filter (body_match q) d)"
  by (simp add: search_results_eq)

section \<open>Case-insensitive matching\<close>

text \<open>
  Claim C2, as stated: on a document containing "Foo bar", \<open>search("FOO")\<close> and
  \<open>search("foo")\<close> return equal results. The strings returned differ, because the first
  line of the response repeats the query as it was typed.
\<close>

theorem search_echoes_query_case:
  "search foo_bar_parser ''FOO'' \<noteq> search foo_bar_parser ''foo''"
  by code_simp

text \<open>
  Claim C2, amended: two queries with the same lowercase form find the same result list,
  and on a non-empty section map the two responses differ only in the query repeated in
  them; matching is containment of the lowercased query in the lowercased title, or in a
  lowercased line of the body.
\<close>

theorem search_case_insensitive:
  assumes "lower q1 = lower q2" and "sections self \<noteq> []"
  shows "search_results (sections self) (lower q1) = search_results (sections self) (lower q2)
    \<and> (\<exists>before after.
          search self q1 = before @ q1 @ after \<and> search self q2 = before @ q2 @ after)
    \<and> map fst (search_results (sections self) (lower q1))
       = map fst (filter (\<lambda>(title, body). sublist (lower q1) (lower title)) (sections self))
         @ map fst (filter (\<lambda>(title, body).
               list_ex (\<lambda>line. sublist (lower q1) (lower line)) (split_nl body))
             (sections self))"
proof -
  let ?r = "search_results (sections self) (lower q1)"
  have r: "search_results (sections self) (lower q2) = ?r"
    using assms(1) by simp
  have frame: "\<exists>before after.
      search self q1 = before @ q1 @ after \<and> search self q2 = before @ q2 @ after"
  proof (cases "?r = []")
    case True
    have "search self q1
        = (''No results found for '' @ [CHR 0x27]) @ q1
          @ ([CHR 0x27] @ '' in the documentation.'')"
      "search self q2
        = (''No results found for '' @ [CHR 0x27]) @ q2
          @ ([CHR 0x27] @ '' in the documentation.'')"
      using assms(2) True r by (simp_all add: search_eq)
    then show ?thesis by blast
  next
    case False
    let ?tail = "[CHR 0x27] @ '':'' @ [CHR 0x0A, CHR 0x0A]
         @ concat (map numbered (List.enumerate 1 (take 5 ?r)))
         @ (if 5 < length ?r
            then ''... and '' @ str_nat (length ?r - 5) @ '' more results found.'' @ [CHR 0x0A]
            else [])"
    have "search self q1 = (''Search results for '' @ [CHR 0x27]) @ q1 @ ?tail"
      "search self q2 = (''Search results for '' @ [CHR 0x27]) @ q2 @ ?tail"
      using assms(2) False r by (simp_all add: search_eq)
    then show ?thesis by blast
  qed
  have m: "map fst ?r
       = map fst (filter (\<lambda>(title, body). sublist (lower q1) (lower title)) (sections self))
         @ map fst (filter (\<lambda>(title, body).
               list_ex (\<lambda>line. sublist (lower q1) (lower line)) (split_nl body))
             (sections self))"
  proof -
    have t: "title_match q1 = (\<lambda>(title, body). sublist (lower q1) (lower title))"
      by (auto simp: title_match_def fun_eq_iff)
    have l: "line_match q1 = (\<lambda>line. sublist (lower q1) (lower line))"
      by (auto simp: line_match_def fun_eq_iff)
    have b: "body_match q1 = (\<lambda>(title, body).
               list_ex (\<lambda>line. sublist (lower q1) (lower line)) (split_nl body))"
      by (auto simp: body_match_def l fun_eq_iff)
    have "fst \<circ> title_result = fst"
      by (auto simp: title_result_def fun_eq_iff)
    moreover have "fst \<circ> body_result q1 = fst"
      by (auto simp: body_result_def fun_eq_iff)
    ultimately show ?thesis
      by (simp add: search_results_eq t [symmetric] b [symmetric])
  qed
  show ?thesis using r frame m by simp
qed

theorem search_case_insensitive_witness:
  "lower ''FOO'' = lower ''foo'' \<and> sections foo_bar_parser \<noteq> []
   \<and> search_results (sections foo_bar_parser) (lower ''FOO'')
       = search_results (sections foo_bar_parser) (lower ''foo'')
   \<and> (\<exists>before after. search foo_bar_parser ''FOO'' = before @ ''FOO'' @ after
         \<and> search foo_bar_parser ''foo'' = before @ ''foo'' @ after)"
proof -
  have h1: "lower ''FOO'' = lower ''foo''" by code_simp
  have h2: "sections foo_bar_parser \<noteq> []" by code_simp
  show ?thesis using search_case_insensitive [OF h1 h2] h1 h2 by simp
qed

section \<open>The numbered listing\<close>







section \<open>Overview and search always answer\<close>

text \<open>
  On a dictionary of strings and a query string the methods on objects return what the
  typed functions compute; on other objects they can raise.
\<close>

lemma overview_loop_py_typed:
  "overview_loop_py i (map Str ts) acc = overview_loop i ts acc"
  by (induction ts arbitrary: i acc) auto

lemma overview_loop_eq:
  "overview_loop i ts acc = acc @ concat (map overview_line (List.enumerate i ts))"
  by (induction ts arbitrary: i acc) (auto simp: overview_line_def)

lemma title_loop_py_typed:
  "title_loop_py ql (map py_section d) (map py_result acc)
     = Inr (map py_result (title_loop ql d acc))"
proof (induction d arbitrary: acc)
  case Nil
  then show ?case by simp
next
  case (Cons s d)
  obtain t c where s: "s = (t, c)" by (cases s)
  let ?hit = "(t, ''Found in section title: '' @ t)"
  have step: "map py_result acc @ [(Str t, ''Found in section title: '' @ t)]
      = map py_result (acc @ [?hit])"
    by (simp add: py_result_def)
  show ?case
  proof (cases "contains ql (lower t)")
    case True
    then show ?thesis
      using Cons.IH [of "acc @ [?hit]"] unfolding step [symmetric]
      by (simp add: s py_section_def)
  next
    case False
    then show ?thesis
      using Cons.IH [of acc] by (simp add: s py_section_def)
  qed
qed

lemma content_loop_py_typed:
  "content_loop_py ql (map py_section d) (map py_result acc)
     = Inr (map py_result (content_loop ql d acc))"
proof (induction d arbitrary: acc)
  case Nil
  then show ?case by simp
next
  case (Cons s d)
  obtain t c where s: "s = (t, c)" by (cases s)
  let ?m = "line_loop ql (split_nl c) []"
  let ?hit = "(t, snippet t ?m)"
  have step: "map py_result acc @ [(Str t, snippet t ?m)] = map py_result (acc @ [?hit])"
    by (simp add: py_result_def)
  show ?case
  proof (cases "contains ql (lower c) \<and> ?m \<noteq> []")
    case True
    then show ?thesis
      using Cons.IH [of "acc @ [?hit]"] unfolding step [symmetric]
      by (simp add: s py_section_def Let_def)
  next
    case False
    then show ?thesis
      using Cons.IH [of acc] by (auto simp: s py_section_def Let_def)
  qed
qed

lemma format_loop_py_typed:
  "format_loop_py i (map py_result rs) acc = format_loop i rs acc"
  by (induction rs arbitrary: i acc) (auto simp: py_result_def)

lemma get_overview_py_typed:
  "get_overview_py (py_dict (sections self)) = Inr (get_overview self)"
proof -
  have "map fst (map py_section d) = map Str (map fst d)" for d
    by (induction d) (simp_all add: py_section_def)
  then show ?thesis
    using overview_loop_py_typed [of 1 "map fst (sections self)"]
    by (simp add: get_overview_py_def get_overview_def py_dict_def del: map_map)
qed

lemma search_py_typed:
  "search_py (py_dict (sections self)) (Str q) = Inr (search self q)"
proof -
  let ?d = "sections self"
  have t: "title_loop_py (lower q) (map py_section ?d) []
      = Inr (map py_result (title_loop (lower q) ?d []))"
    using title_loop_py_typed [of "lower q" ?d "[]"] by simp
  have c: "content_loop_py (lower q) (map py_section ?d)
        (map py_result (title_loop (lower q) ?d []))
      = Inr (map py_result (search_results ?d (lower q)))"
    by (simp add: content_loop_py_typed search_results_def)
  show ?thesis
    by (simp add: search_py_def search_def py_dict_def t c Let_def take_map
        format_loop_py_typed)
qed

lemma search_py_raises_example:
  "search_py (py_dict [(''A'', ''x'')]) NoneVal = Inl AttributeError
   \<and> search_py (Dict [(NoneVal, Str ''x'')]) (Str ''x'') = Inl AttributeError
   \<and> search_py (Val (Str ''abc'')) (Str ''x'') = Inl AttributeError
   \<and> get_overview_py (Val (Str ''abc'')) = Inl AttributeError"
  by (simp add: search_py_def get_overview_py_def py_dict_def py_section_def)

text \<open>
  Claim C7. For every section map of strings, the empty one included, and every query
  string, the empty one included, \<open>get_overview\<close> and \<open>search\<close> return a string and do not
  raise; the same holds when the section map is missing (\<open>None\<close>). The string is never
  empty and it is the descriptive text of the specification: for the overview the "no
  sections" message, or the heading and the titles numbered from 1 in map order; for the
  search the "nothing to search" message, or the "no results" message with the query, or
  the heading with the query, the numbered first five results and the count of the rest.
\<close>

theorem overview_search_total:
  "get_overview_py (py_dict (sections self)) = Inr (get_overview self)
   \<and> search_py (py_dict (sections self)) (Str q) = Inr (search self q)
   \<and> get_overview_py (Val NoneVal) = Inr ''No documentation sections available.''
   \<and> search_py (Val NoneVal) (Str q) = Inr ''No documentation available to search.''
   \<and> get_overview self \<noteq> [] \<and> search self q \<noteq> []
   \<and> get_overview self
       = (if sections self = [] then ''No documentation sections available.''
          else ''Available documentation sections:'' @ [CHR 0x0A, CHR 0x0A]
               @ concat (map overview_line (List.enumerate 1 (map fst (sections self)))))
   \<and> search self q
       = (let results = map title_result (filter (title_match q) (sections self))
                        @ map (body_result q) (filter (body_match q) (sections self))
          in if sections self = [] then ''No documentation available to search.''
             else if results = []
             then ''No results found for '' @ [CHR 0x27] @ q @ [CHR 0x27]
                    @ '' in the documentation.''
             else ''Search results for '' @ [CHR 0x27] @ q @ [CHR 0x27] @ '':''
                    @ [CHR 0x0A, CHR 0x0A]
                    @ concat (map numbered (List.enumerate 1 (take 5 results)))
                    @ (if 5 < length results
                       then ''... and '' @ str_nat (length results - 5)
                              @ '' more results found.'' @ [CHR 0x0A]
                       else []))"
proof -
  have ov: "get_overview self
       = (if sections self = [] then ''No documentation sections available.''
          else ''Available documentation sections:'' @ [CHR 0x0A, CHR 0x0A]
               @ concat (map overview_line (List.enumerate 1 (map fst (sections self)))))"
    by (simp add: get_overview_def overview_loop_eq)
  have se: "search self q
       = (let results = map title_result (filter (title_match q) (sections self))
                        @ map (body_result q) (filter (body_match q) (sections self))
          in if sections self = [] then ''No documentation available to search.''
             else if results = []
             then ''No results found for '' @ [CHR 0x27] @ q @ [CHR 0x27]
                    @ '' in the documentation.''
             else ''Search results for '' @ [CHR 0x27] @ q @ [CHR 0x27] @ '':''
                    @ [CHR 0x0A, CHR 0x0A]
                    @ concat (map numbered (List.enumerate 1 (take 5 results)))
                    @ (if 5 < length results
                       then ''... and '' @ str_nat (length results - 5)
                              @ '' more results found.'' @ [CHR 0x0A]
                       else []))"
    unfolding Let_def search_results_eq [symmetric] by (rule search_eq)
  have ne1: "get_overview self \<noteq> []"
    unfolding ov by simp
  have ne2: "search self q \<noteq> []"
    by (simp add: search_eq)
  have n1: "get_overview_py (Val NoneVal) = Inr ''No documentation sections available.''"
    by (simp add: get_overview_py_def)
  have n2: "search_py (Val NoneVal) (Str q) = Inr ''No documentation available to search.''"
    by (simp add: search_py_def)
  show ?thesis
    using get_overview_py_typed [of self] search_py_typed [of self q] n1 n2 ne1 ne2 ov se
    by blast
qed

section \<open>Repeated titles\<close>

text \<open>Parsing is the sequence of its assignments, carried out on the empty dictionary.\<close>

lemma header_sections_assign:
  "header_sections chunks d = assign_all (map chunk_entry chunks) d"
proof (induction chunks arbitrary: d)
  case Nil
  then show ?case by simp
next
  case (Cons c cs)
  have "split_nl1 c \<noteq> []" by (rule split_nl1_not_Nil)
  then have "1 \<le> length (split_nl1 c)" by (cases "split_nl1 c") auto
  then show ?case
    by (simp add: Let_def chunk_entry_def Cons.IH hd_conv_nth split_nl1_not_Nil)
qed

lemma assign_all_append: "assign_all (xs @ ys) d = assign_all ys (assign_all xs d)"
  by (induction xs arbitrary: d) auto

lemma build_assign: "build content = assign_all (assignments content) []"
proof -
  have "re_split content \<noteq> []" by (simp add: re_split_def re_split_at_not_Nil)
  then have "re_split content ! 0 = hd (re_split content)" by (simp add: hd_conv_nth)
  then show ?thesis
    by (simp add: build_def parse_content_def Let_def assignments_def header_sections_assign)
qed

lemma keys_setitem:
  "map fst (setitem k v d) = (if k \<in> set (map fst d) then map fst d else map fst d @ [k])"
  by (simp add: setitem_update update_keys)

lemma map_of_setitem: "map_of (setitem k v d) = (map_of d)(k \<mapsto> v)"
  by (simp add: setitem_update update_conv')

lemma first_occ_seen_cong:
  "set seen = set seen' \<Longrightarrow> first_occ seen ks = first_occ seen' ks"
proof (induction ks arbitrary: seen seen')
  case Nil
  then show ?case by simp
next
  case (Cons k ks)
  have mem: "k \<in> set seen \<longleftrightarrow> k \<in> set seen'"
    using Cons.prems by simp
  have "set (k # seen) = set (k # seen')"
    using Cons.prems by simp
  then have "first_occ (k # seen) ks = first_occ (k # seen') ks"
    by (rule Cons.IH)
  moreover have "first_occ seen ks = first_occ seen' ks"
    using Cons.prems by (rule Cons.IH)
  ultimately show ?case
    using mem by simp
qed

lemma keys_assign_all:
  "map fst (assign_all es d) = map fst d @ first_occ (map fst d) (map fst es)"
proof (induction es arbitrary: d)
  case Nil
  then show ?case by simp
next
  case (Cons e es)
  obtain k v where e: "e = (k, v)" by (cases e)
  show ?case
  proof (cases "k \<in> set (map fst d)")
    case True
    then show ?thesis by (simp add: e Cons.IH keys_setitem)
  next
    case False
    have "first_occ (map fst d @ [k]) (map fst es) = first_occ (k # map fst d) (map fst es)"
      by (rule first_occ_seen_cong) auto
    with False show ?thesis by (simp add: e Cons.IH keys_setitem)
  qed
qed

lemma map_of_assign_all: "map_of (assign_all es d) = map_of (rev es @ d)"
proof (induction es arbitrary: d)
  case Nil
  then show ?case by simp
next
  case (Cons e es)
  obtain k v where e: "e = (k, v)" by (cases e)
  show ?case
    by (simp add: e Cons.IH map_of_setitem map_add_def fun_eq_iff split: option.splits)
qed

text \<open>
  Claim C9. The section map is the result of the assignments that parsing executes. Its
  keys are the assigned titles in the order of their first occurrence, and the body kept
  for a title is the one of its last assignment. So when a title appears twice, the later
  body replaces the earlier one and the title stays where it first appeared.
\<close>

theorem repeated_title_last_wins:
  "map fst (build content) = first_occ [] (map fst (assignments content))
   \<and> map_of (build content) = map_of (rev (assignments content))"
  by (simp add: build_assign keys_assign_all map_of_assign_all)

lemma repeated_title_example:
  "assignments ''# A\<newline>1\<newline># B\<newline>2\<newline># A\<newline>3''
     = [(''A'', ''1''), (''B'', ''2''), (''A'', ''3'')]
   \<and> build ''# A\<newline>1\<newline># B\<newline>2\<newline># A\<newline>3'' = [(''A'', ''3''), (''B'', ''2'')]"
  by code_simp

section \<open>What construction leaves in the section map\<close>













section \<open>Introduction and Documentation\<close>

text \<open>
  The split has more than one chunk exactly when some line of the text is a header, and
  its first chunk is the preamble.
\<close>

lemma split_nl_newline: "split_nl (CHR 0x0A # s) = [] # split_nl s"
  by simp

lemma split_nl_other:
  "c \<noteq> CHR 0x0A \<Longrightarrow> split_nl (c # s) = (c # hd (split_nl s)) # tl (split_nl s)"
  by (simp add: Let_def)

lemma hd_split_nl_Cons:
  "hd (split_nl (d # s)) = (if d = CHR 0x0A then [] else d # hd (split_nl s))"
  by (simp add: Let_def)

lemma split_nl_hd_tl: "split_nl s = hd (split_nl s) # tl (split_nl s)"
  by simp

lemma count_split_nl:
  "length (filter P (split_nl s))
     = (if P (hd (split_nl s)) then 1 else 0) + length (filter P (tl (split_nl s)))"
  by (cases "split_nl s") auto

lemma is_header_line_Cons:
  "is_header_line (c # h) \<longleftrightarrow> c = CHR ''#'' \<and> h \<noteq> [] \<and> hd h = CHR '' ''"
  by (cases h) (auto simp: is_header_line_def)

lemma is_header_line_Nil [simp]: "\<not> is_header_line []"
  by (simp add: is_header_line_def)

lemma before_header_False:
  "L \<noteq> [] \<Longrightarrow> before_header False L
     = (if tl L = [] then hd L else hd L @ [CHR 0x0A] @ before_header True (tl L))"
  by (cases L) auto

lemma not_header_after:
  assumes "\<not> (bol \<and> c = CHR ''#'' \<and> d = CHR '' '')"
  shows "\<not> (bol \<and> is_header_line (c # hd (split_nl (d # s))))"
proof
  assume h: "bol \<and> is_header_line (c # hd (split_nl (d # s)))"
  then have "c = CHR ''#''" and ne: "hd (split_nl (d # s)) \<noteq> []"
    and sp: "hd (hd (split_nl (d # s))) = CHR '' ''"
    by (simp_all add: is_header_line_Cons del: split_nl.simps)
  from ne have "d \<noteq> CHR 0x0A" by (auto simp: hd_split_nl_Cons simp del: split_nl.simps)
  then have "hd (split_nl (d # s)) = d # hd (split_nl s)"
    by (simp add: hd_split_nl_Cons del: split_nl.simps)
  with sp have "d = CHR '' ''" by simp
  with h \<open>c = CHR ''#''\<close> assms show False by simp
qed

lemma length_re_split_at:
  "length (re_split_at bol s)
     = Suc ((if bol \<and> is_header_line (hd (split_nl s)) then 1 else 0)
            + length (filter is_header_line (tl (split_nl s))))"
proof (induction bol s rule: re_split_at.induct)
  case (1 bol)
  then show ?case by simp
next
  case (2 bol c)
  then show ?case by (simp add: is_header_line_Cons)
next
  case (3 bol c d s)
  let ?L = "split_nl (d # s)"
  show ?case
  proof (cases "bol \<and> c = CHR ''#'' \<and> d = CHR '' ''")
    case True
    have "split_nl (c # d # s) = (c # d # hd (split_nl s)) # tl (split_nl s)"
      using True by (simp add: Let_def)
    moreover have "is_header_line (c # d # hd (split_nl s))"
      using True by (simp add: is_header_line_Cons)
    moreover have "length (re_split_at bol (c # d # s)) = Suc (length (re_split_at False s))"
      using True by simp
    moreover have "length (re_split_at False s)
        = Suc (length (filter is_header_line (tl (split_nl s))))"
      using "3.IH"(1) True by simp
    ultimately show ?thesis
      using True by (simp del: split_nl.simps re_split_at.simps)
  next
    case False
    let ?r = "re_split_at (c = CHR 0x0A) (d # s)"
    have len: "length (re_split_at bol (c # d # s)) = length ?r"
      using False re_split_at_not_Nil [of "c = CHR 0x0A" "d # s"]
      by (cases ?r) (auto simp: Let_def)
    have ih: "length ?r
        = Suc ((if c = CHR 0x0A \<and> is_header_line (hd ?L) then 1 else 0)
               + length (filter is_header_line (tl ?L)))"
      using "3.IH"(2) False by simp
    show ?thesis
    proof (cases "c = CHR 0x0A")
      case True
      have sp: "split_nl (c # d # s) = [] # ?L"
        unfolding True by (rule split_nl_newline)
      have "length (filter is_header_line ?L)
          = (if is_header_line (hd ?L) then 1 else 0) + length (filter is_header_line (tl ?L))"
        by (rule count_split_nl)
      then show ?thesis
        using True len ih unfolding sp by (simp del: split_nl.simps re_split_at.simps)
    next
      case nl: False
      have sp: "split_nl (c # d # s) = (c # hd ?L) # tl ?L"
        using nl by (rule split_nl_other)
      have "\<not> (bol \<and> is_header_line (c # hd ?L))"
        using False by (rule not_header_after)
      then show ?thesis
        using nl len ih unfolding sp by (simp del: split_nl.simps re_split_at.simps)
    qed
  qed
qed

lemma has_header_iff: "has_header content \<longleftrightarrow> 1 < length (re_split content)"
proof -
  have "list_ex is_header_line (split_nl content)
      \<longleftrightarrow> filter is_header_line (split_nl content) \<noteq> []"
    by (simp add: list_ex_iff filter_empty_conv)
  also have "\<dots> \<longleftrightarrow> 0 < length (filter is_header_line (split_nl content))"
    by simp
  also have "\<dots> \<longleftrightarrow> 1 < length (re_split content)"
    unfolding count_split_nl [of is_header_line content] re_split_def
      length_re_split_at [of True content]
    by simp
  finally show ?thesis by (simp add: has_header_def)
qed

lemma hd_re_split_at: "hd (re_split_at bol s) = before_header bol (split_nl s)"
proof (induction bol s rule: re_split_at.induct)
  case (1 bol)
  then show ?case by simp
next
  case (2 bol c)
  then show ?case by (simp add: is_header_line_Cons)
next
  case (3 bol c d s)
  let ?L = "split_nl (d # s)"
  show ?case
  proof (cases "bol \<and> c = CHR ''#'' \<and> d = CHR '' ''")
    case True
    have "split_nl (c # d # s) = (c # d # hd (split_nl s)) # tl (split_nl s)"
      using True by (simp add: Let_def)
    moreover have "is_header_line (c # d # hd (split_nl s))"
      using True by (simp add: is_header_line_Cons)
    ultimately show ?thesis using True by simp
  next
    case False
    have ih: "hd (re_split_at (c = CHR 0x0A) (d # s)) = before_header (c = CHR 0x0A) ?L"
      using "3.IH"(2) False by simp
    have lhs: "hd (re_split_at bol (c # d # s)) = c # before_header (c = CHR 0x0A) ?L"
      using False ih by (simp add: Let_def del: split_nl.simps)
    have Lne: "?L \<noteq> []" by (rule split_nl_not_Nil)
    show ?thesis
    proof (cases "c = CHR 0x0A")
      case True
      have sp: "split_nl (c # d # s) = [] # ?L"
        unfolding True by (rule split_nl_newline)
      have "before_header bol ([] # ?L) = c # before_header True ?L"
        using True Lne by (simp del: split_nl.simps)
      then show ?thesis using lhs True unfolding sp by (simp del: split_nl.simps)
    next
      case nl: False
      have sp: "split_nl (c # d # s) = (c # hd ?L) # tl ?L"
        using nl by (rule split_nl_other)
      have nh: "\<not> (bol \<and> is_header_line (c # hd ?L))"
        using False by (rule not_header_after)
      have "before_header False ?L
          = (if tl ?L = [] then hd ?L else hd ?L @ [CHR 0x0A] @ before_header True (tl ?L))"
        using Lne by (rule before_header_False)
      moreover have "before_header bol ((c # hd ?L) # tl ?L)
          = (if tl ?L = [] then c # hd ?L
             else (c # hd ?L) @ [CHR 0x0A] @ before_header True (tl ?L))"
        using nh by (auto simp del: split_nl.simps)
      ultimately show ?thesis
        using lhs nl unfolding sp by (simp del: split_nl.simps)
    qed
  qed
qed

lemma hd_re_split: "hd (re_split content) = preamble content"
  by (simp add: re_split_def preamble_def hd_re_split_at)

text \<open>
  Claim C5, as stated: when the text has a header, the text before the first header
  becomes the section "Introduction" exactly when it is non-empty after trimming. A later
  header that is itself titled "Introduction" assigns to the same key: the preamble "x"
  is non-empty, and the section "Introduction" that results has the body "y".
\<close>

theorem introduction_overwritten_by_header:
  "has_header ''x\<newline># Introduction\<newline>y''
   \<and> strip (preamble ''x\<newline># Introduction\<newline>y'') = ''x''
   \<and> build ''x\<newline># Introduction\<newline>y'' = [(''Introduction'', ''y'')]"
  by code_simp

lemma assignments_header:
  assumes "has_header content"
  shows "assignments content
     = (if strip (preamble content) \<noteq> []
        then [(''Introduction'', strip (preamble content))] else [])
       @ map chunk_entry (tl (re_split content))"
  using assms by (simp add: assignments_def has_header_iff hd_re_split)

lemma map_of_hd: "d \<noteq> [] \<Longrightarrow> map_of d (fst (hd d)) = Some (snd (hd d))"
  by (cases d) auto

text \<open>
  Claim C5, amended: for every text with at least one top-level header, when the text
  before the first header is non-empty after trimming the first section is titled
  "Introduction"; when moreover no header is itself titled "Introduction", the map has a
  section "Introduction" exactly when that text is non-empty after trimming, and it then
  is the first section and its body is that trimmed text. For every text with no
  top-level header line, the result is the single section "Documentation" whose body is
  the whole trimmed text.
\<close>

theorem introduction_and_documentation:
  "(has_header content \<and> strip (preamble content) \<noteq> [] \<longrightarrow>
      fst (hd (build content)) = ''Introduction'')
   \<and> (has_header content \<and> ''Introduction'' \<notin> set (header_titles content) \<longrightarrow>
      map_of (build content) ''Introduction''
        = (if strip (preamble content) \<noteq> [] then Some (strip (preamble content)) else None)
      \<and> (strip (preamble content) \<noteq> [] \<longrightarrow>
           hd (build content) = (''Introduction'', strip (preamble content))))
   \<and> (\<not> has_header content \<longrightarrow> build content = [(''Documentation'', strip content)])"
proof (intro conjI impI)
  assume h: "has_header content \<and> strip (preamble content) \<noteq> []"
  show "fst (hd (build content)) = ''Introduction''"
  proof -
    have "map fst (build content) = first_occ [] (map fst (assignments content))"
      by (simp add: build_assign keys_assign_all)
    also have "\<dots> = ''Introduction''
        # first_occ [''Introduction''] (map fst (map chunk_entry (tl (re_split content))))"
      using h by (simp add: assignments_header)
    finally show ?thesis by (cases "build content") auto
  qed
next
  assume h: "has_header content \<and> ''Introduction'' \<notin> set (header_titles content)"
  let ?hs = "map chunk_entry (tl (re_split content))"
  have none: "map_of (rev ?hs) ''Introduction'' = None"
    using h by (simp add: map_of_eq_None_iff header_titles_def image_image)
  have "map_of (build content) = map_of (rev (assignments content))"
    by (simp add: build_assign map_of_assign_all)
  then show m: "map_of (build content) ''Introduction''
        = (if strip (preamble content) \<noteq> [] then Some (strip (preamble content)) else None)"
    using h none by (simp add: assignments_header map_add_def)
  assume ne: "strip (preamble content) \<noteq> []"
  have keys: "map fst (build content) = first_occ [] (map fst (assignments content))"
    by (simp add: build_assign keys_assign_all)
  have "first_occ [] (map fst (assignments content)) = ''Introduction''
        # first_occ [''Introduction''] (map fst ?hs)"
    using h ne by (simp add: assignments_header)
  with keys have b: "build content \<noteq> []" and f: "fst (hd (build content)) = ''Introduction''"
    by (cases "build content"; auto)+
  have "map_of (build content) ''Introduction'' = Some (snd (hd (build content)))"
    using map_of_hd [OF b] f by simp
  with m ne have "snd (hd (build content)) = strip (preamble content)" by simp
  with f show "hd (build content) = (''Introduction'', strip (preamble content))"
    by (simp add: prod_eq_iff)
next
  assume "\<not> has_header content"
  then show "build content = [(''Documentation'', strip content)]"
    by (simp add: has_header_iff build_def parse_content_def Let_def)
qed

theorem introduction_and_documentation_witness:
  "has_header ''intro text\<newline># A\<newline>foo''
   \<and> strip (preamble ''intro text\<newline># A\<newline>foo'') \<noteq> []
   \<and> ''Introduction'' \<notin> set (header_titles ''intro text\<newline># A\<newline>foo'')
   \<and> hd (build ''intro text\<newline># A\<newline>foo'') = (''Introduction'', ''intro text'')
   \<and> \<not> has_header ''  plain text #  ''
   \<and> build ''  plain text #  '' = [(''Documentation'', ''plain text #'')]"
proof -
  have h1: "has_header ''intro text\<newline># A\<newline>foo''"
    by code_simp
  have h2: "strip (preamble ''intro text\<newline># A\<newline>foo'') = ''intro text''"
    by code_simp
  have h3: "''Introduction'' \<notin> set (header_titles ''intro text\<newline># A\<newline>foo'')"
    by code_simp
  have h4: "\<not> has_header ''  plain text #  ''"
    by code_simp
  have h5: "strip ''  plain text #  '' = ''plain text #''"
    by code_simp
  show ?thesis
    using introduction_and_documentation [of "''intro text\<newline># A\<newline>foo''"] introduction_and_documentation [of "''  plain text #  ''"]
      h1 h2 h3 h4 h5 by simp
qed

end
